theory Spec2Isabelle
  imports Main
begin

section \<open>Errors\<close>

text \<open>
  The branching manager raises only \<^verbatim>\<open>ValueError\<close>, with a message that names the
  branch. The message is kept, since it is what tells a re-registration from a query of an
  unregistered branch. The coordinator raises nothing of its own; \<open>LayeringError\<close> stands
  for what reaches its caller when the layering it asks for does not exist.
\<close>

datatype error = ValueError string | LayeringError

definition re_register_error :: "string \<Rightarrow> error" where
  "re_register_error execution_branch =
     ValueError (''Attempted to re-register maks for execution branch: '' @ execution_branch)"

definition get_mask_error :: "string \<Rightarrow> error" where
  "get_mask_error execution_branch =
     ValueError (''Attempted to get mask for not registered execution branch: '' @ execution_branch)"

definition batch_oriented_error :: "string \<Rightarrow> error" where
  "batch_oriented_error execution_branch =
     ValueError (''Attempted to get information about not registered execution branch: ''
                 @ execution_branch)"

section \<open>Branching manager (branching\_manager.py)\<close>

text \<open>
  A mask is \<^verbatim>\<open>Union[Set[DynamicBatchIndex], bool]\<close>. The index type is declared in a
  module that is not part of the sources at hand, so it is a type parameter \<open>'i\<close>.
\<close>

datatype 'i mask = SetMask "'i set" | BoolMask bool

text \<open>\<^verbatim>\<open>isinstance(mask, bool)\<close>\<close>

fun isinstance_bool :: "'i mask \<Rightarrow> bool" where
  "isinstance_bool (BoolMask b) = True"
| "isinstance_bool (SetMask s) = False"

record 'i BranchingManager =
  masks :: "string \<rightharpoonup> 'i mask"
  batch_compatibility :: "string \<rightharpoonup> bool"

text \<open>\<^verbatim>\<open>__init__\<close>: the compatibility table is derived from the given masks.\<close>

definition BranchingManager_new :: "(string \<rightharpoonup> 'i mask) \<Rightarrow> 'i BranchingManager" where
  "BranchingManager_new ms =
     \<lparr> masks = ms,
       batch_compatibility = (\<lambda>branch_name. map_option (\<lambda>m. \<not> isinstance_bool m) (ms branch_name)) \<rparr>"

definition init :: "'i BranchingManager" where
  "init = BranchingManager_new Map.empty"

text \<open>
  The mutating methods return the outcome together with the manager as it is when the
  method is left, by \<^verbatim>\<open>return\<close> or by \<^verbatim>\<open>raise\<close>.
\<close>

definition register_batch_oriented_mask ::
  "'i BranchingManager \<Rightarrow> string \<Rightarrow> 'i set \<Rightarrow> (error + unit) \<times> 'i BranchingManager" where
  "register_batch_oriented_mask self execution_branch mask' =
     (if execution_branch \<in> dom (masks self)
      then (Inl (re_register_error execution_branch), self)
      else (Inr (),
            self\<lparr> batch_compatibility := (batch_compatibility self)(execution_branch \<mapsto> True),
                  masks := (masks self)(execution_branch \<mapsto> SetMask mask') \<rparr>))"

definition register_non_batch_mask ::
  "'i BranchingManager \<Rightarrow> string \<Rightarrow> bool \<Rightarrow> (error + unit) \<times> 'i BranchingManager" where
  "register_non_batch_mask self execution_branch mask' =
     (if execution_branch \<in> dom (masks self)
      then (Inl (re_register_error execution_branch), self)
      else (Inr (),
            self\<lparr> batch_compatibility := (batch_compatibility self)(execution_branch \<mapsto> False),
                  masks := (masks self)(execution_branch \<mapsto> BoolMask mask') \<rparr>))"

definition get_mask :: "'i BranchingManager \<Rightarrow> string \<Rightarrow> error + 'i mask" where
  "get_mask self execution_branch =
     (case masks self execution_branch of
        None \<Rightarrow> Inl (get_mask_error execution_branch)
      | Some m \<Rightarrow> Inr m)"

definition is_execution_branch_batch_oriented :: "'i BranchingManager \<Rightarrow> string \<Rightarrow> error + bool" where
  "is_execution_branch_batch_oriented self execution_branch =
     (case batch_compatibility self execution_branch of
        None \<Rightarrow> Inl (batch_oriented_error execution_branch)
      | Some b \<Rightarrow> Inr b)"

definition is_execution_branch_registered :: "'i BranchingManager \<Rightarrow> string \<Rightarrow> bool" where
  "is_execution_branch_registered self execution_branch \<longleftrightarrow> execution_branch \<in> dom (masks self)"

text \<open>
  A run of the manager: the registrations a caller makes, one after the other. A caller
  that catches the error of a failed registration goes on with the manager as the failed
  call left it.
\<close>

datatype 'i registration = RegisterBatch string "'i set" | RegisterNonBatch string bool

fun register :: "'i BranchingManager \<Rightarrow> 'i registration \<Rightarrow> (error + unit) \<times> 'i BranchingManager" where
  "register self (RegisterBatch b s) = register_batch_oriented_mask self b s"
| "register self (RegisterNonBatch b e) = register_non_batch_mask self b e"

fun registrations :: "'i BranchingManager \<Rightarrow> 'i registration list \<Rightarrow> 'i BranchingManager" where
  "registrations self [] = self"
| "registrations self (r # rs) = registrations (snd (register self r)) rs"

fun branch_of :: "'i registration \<Rightarrow> string" where
  "branch_of (RegisterBatch b s) = b"
| "branch_of (RegisterNonBatch b e) = b"

text \<open>The two tables of a manager agree: same branches, and the flag tells the mask's kind.\<close>

definition tables_agree :: "'i BranchingManager \<Rightarrow> bool" where
  "tables_agree self \<longleftrightarrow>
     (\<forall>b. batch_compatibility self b = map_option (\<lambda>m. \<not> isinstance_bool m) (masks self b))"

lemma tables_agree_new: "tables_agree (BranchingManager_new ms)"
  by (simp add: tables_agree_def BranchingManager_new_def)

lemma tables_agree_register: "tables_agree self \<Longrightarrow> tables_agree (snd (register self r))"
  by (cases r)
     (auto simp: tables_agree_def register_batch_oriented_mask_def register_non_batch_mask_def)

lemma tables_agree_registrations:
  "tables_agree self \<Longrightarrow> tables_agree (registrations self rs)"
  by (induction rs arbitrary: self) (simp_all add: tables_agree_register)

lemma tables_agree_run: "tables_agree (registrations (BranchingManager_new ms) rs)"
  by (rule tables_agree_registrations [OF tables_agree_new])

lemma tables_agree_None:
  "tables_agree self \<Longrightarrow> batch_compatibility self b = None \<longleftrightarrow> masks self b = None"
  by (simp add: tables_agree_def)

lemma dom_masks_register:
  "dom (masks (snd (register self r))) = insert (branch_of r) (dom (masks self))"
  by (cases r)
     (auto simp: register_batch_oriented_mask_def register_non_batch_mask_def)

lemma dom_masks_registrations:
  "dom (masks (registrations self rs)) = dom (masks self) \<union> branch_of ` set rs"
  by (induction rs arbitrary: self) (auto simp: dom_masks_register simp del: register.simps)

lemma register_fails_iff:
  "isl (fst (register self r)) \<longleftrightarrow> is_execution_branch_registered self (branch_of r)"
  by (cases r)
     (simp_all add: register_batch_oriented_mask_def register_non_batch_mask_def
        is_execution_branch_registered_def)

lemma register_failed_unchanged:
  "fst (register self r) = Inl e \<Longrightarrow> snd (register self r) = self"
  by (cases r)
     (simp_all add: register_batch_oriented_mask_def register_non_batch_mask_def
        split: if_splits)

text \<open>
  C8. For a manager started from \<open>init\<close> and taken through any registrations, and any
  branch \<open>b\<close>: (1) if \<open>b\<close> is not registered, registering a set mask or a boolean
  mask succeeds and \<open>get_mask\<close> then returns exactly the registered value, while a second
  registration of either kind for \<open>b\<close> raises the re-registration error; (2) on a branch
  not registered, \<open>get_mask\<close> and \<open>is_execution_branch_batch_oriented\<close> raise their
  not-registered errors; (3) a registration raises exactly when the branch is already
  registered, and it raises the re-registration error; the two queries return exactly when
  the branch is registered.
\<close>

theorem branching_manager_register_query:
  assumes "self = registrations init rs"
  shows "(\<not> is_execution_branch_registered self b \<longrightarrow>
            (\<exists>self'. register_batch_oriented_mask self b s = (Inr (), self')
               \<and> get_mask self' b = Inr (SetMask s)
               \<and> fst (register_batch_oriented_mask self' b s2) = Inl (re_register_error b)
               \<and> fst (register_non_batch_mask self' b e2) = Inl (re_register_error b))
          \<and> (\<exists>self'. register_non_batch_mask self b e = (Inr (), self')
               \<and> get_mask self' b = Inr (BoolMask e)
               \<and> fst (register_batch_oriented_mask self' b s2) = Inl (re_register_error b)
               \<and> fst (register_non_batch_mask self' b e2) = Inl (re_register_error b))
          \<and> get_mask self b = Inl (get_mask_error b)
          \<and> is_execution_branch_batch_oriented self b = Inl (batch_oriented_error b))
       \<and> (is_execution_branch_registered self b \<longrightarrow>
            fst (register_batch_oriented_mask self b s) = Inl (re_register_error b)
          \<and> fst (register_non_batch_mask self b e) = Inl (re_register_error b))
       \<and> (isl (fst (register_batch_oriented_mask self b s))
            \<longleftrightarrow> is_execution_branch_registered self b)
       \<and> (isl (fst (register_non_batch_mask self b e))
            \<longleftrightarrow> is_execution_branch_registered self b)
       \<and> (isl (get_mask self b) \<longleftrightarrow> \<not> is_execution_branch_registered self b)
       \<and> (isl (is_execution_branch_batch_oriented self b)
            \<longleftrightarrow> \<not> is_execution_branch_registered self b)"
proof -
  have agree: "tables_agree self"
    unfolding assms init_def by (rule tables_agree_run)
  have comp: "batch_compatibility self b = None \<longleftrightarrow> masks self b = None"
    by (rule tables_agree_None [OF agree])
  show ?thesis
  proof (cases "masks self b")
    case None
    with comp have "batch_compatibility self b = None" by simp
    with None show ?thesis
      by (simp add: register_batch_oriented_mask_def register_non_batch_mask_def
          get_mask_def is_execution_branch_batch_oriented_def
          is_execution_branch_registered_def dom_def)
  next
    case (Some m)
    with comp obtain c where "batch_compatibility self b = Some c" by auto
    with Some show ?thesis
      by (simp add: register_batch_oriented_mask_def register_non_batch_mask_def
          get_mask_def is_execution_branch_batch_oriented_def
          is_execution_branch_registered_def dom_def)
  qed
qed

theorem branching_manager_register_query_witness:
  "\<not> is_execution_branch_registered
       (registrations init [RegisterNonBatch ''a'' True] :: nat list BranchingManager) ''cond1''
   \<and> (\<exists>self'. register_batch_oriented_mask
                 (registrations init [RegisterNonBatch ''a'' True]) ''cond1'' {[0], [2::nat]}
                 = (Inr (), self')
          \<and> get_mask self' ''cond1'' = Inr (SetMask {[0], [2]})
          \<and> fst (register_batch_oriented_mask self' ''cond1'' {}) = Inl (re_register_error ''cond1'')
          \<and> fst (register_non_batch_mask self' ''cond1'' False) = Inl (re_register_error ''cond1''))
   \<and> get_mask (registrations init [RegisterNonBatch ''a'' True] :: nat list BranchingManager)
        ''cond1'' = Inl (get_mask_error ''cond1'')
   \<and> is_execution_branch_registered
        (registrations init [RegisterNonBatch ''a'' True] :: nat list BranchingManager) ''a''
   \<and> fst (register_non_batch_mask
        (registrations init [RegisterNonBatch ''a'' True] :: nat list BranchingManager) ''a'' False)
      = Inl (re_register_error ''a'')"
proof -
  let ?W = "registrations init [RegisterNonBatch ''a'' True] :: nat list BranchingManager"
  have unreg: "\<not> is_execution_branch_registered ?W ''cond1''"
    unfolding is_execution_branch_registered_def dom_masks_registrations
    by (simp add: init_def BranchingManager_new_def)
  have reg: "is_execution_branch_registered ?W ''a''"
    unfolding is_execution_branch_registered_def dom_masks_registrations
    by simp
  from unreg
    branching_manager_register_query
      [OF refl, of "[RegisterNonBatch ''a'' True]" "''cond1''" "{[0], [2]}" "{}" False False]
  have fresh: "(\<exists>self'. register_batch_oriented_mask ?W ''cond1'' {[0], [2::nat]} = (Inr (), self')
          \<and> get_mask self' ''cond1'' = Inr (SetMask {[0], [2]})
          \<and> fst (register_batch_oriented_mask self' ''cond1'' {}) = Inl (re_register_error ''cond1'')
          \<and> fst (register_non_batch_mask self' ''cond1'' False) = Inl (re_register_error ''cond1''))
        \<and> get_mask ?W ''cond1'' = Inl (get_mask_error ''cond1'')"
    by blast
  from reg
    branching_manager_register_query
      [OF refl, of "[RegisterNonBatch ''a'' True]" "''a''" "{}" "{}" False False]
  have dup: "fst (register_non_batch_mask ?W ''a'' False) = Inl (re_register_error ''a'')"
    by blast
  from unreg reg fresh dup show ?thesis by blast
qed

lemma masks_register_kept:
  "masks self b = Some m \<Longrightarrow> masks (snd (register self r)) b = Some m"
  by (cases r)
     (auto simp: register_batch_oriented_mask_def register_non_batch_mask_def)

lemma masks_registrations_kept:
  "masks self b = Some m \<Longrightarrow> masks (registrations self rs) b = Some m"
  by (induction rs arbitrary: self) (simp_all add: masks_register_kept del: register.simps)

lemma batch_oriented_of_mask:
  "tables_agree self \<Longrightarrow> masks self b = Some m \<Longrightarrow>
   is_execution_branch_batch_oriented self b = Inr (\<not> isinstance_bool m)"
  by (simp add: tables_agree_def is_execution_branch_batch_oriented_def)

text \<open>
  C9. For a manager built by the constructor from any table of masks and taken through any
  registrations: (1) on a registered branch, \<open>is_execution_branch_batch_oriented\<close> returns
  \<open>True\<close> exactly when the stored mask (what \<open>get_mask\<close> returns) is a set and not a
  boolean; (2) a branch registered by \<open>register_batch_oriented_mask\<close> is reported
  batch-oriented and one registered by \<open>register_non_batch_mask\<close> is not, whatever is
  registered afterwards; (3) \<open>is_execution_branch_registered\<close>, which has no failing
  branch, is true exactly for the branches of the initial table and of the registrations
  made.
\<close>

theorem batch_oriented_iff_set_mask:
  assumes "self = registrations (BranchingManager_new ms) rs"
  shows "(is_execution_branch_registered self b \<longrightarrow>
            (\<exists>m. get_mask self b = Inr m
               \<and> is_execution_branch_batch_oriented self b = Inr (\<not> isinstance_bool m)))
       \<and> (\<not> is_execution_branch_registered self b \<longrightarrow>
            is_execution_branch_batch_oriented
              (registrations (snd (register_batch_oriented_mask self b s)) rs') b = Inr True
          \<and> is_execution_branch_batch_oriented
              (registrations (snd (register_non_batch_mask self b e)) rs') b = Inr False)
       \<and> (is_execution_branch_registered self b \<longleftrightarrow> b \<in> dom ms \<union> branch_of ` set rs)"
proof -
  have agree: "tables_agree self"
    unfolding assms by (rule tables_agree_run)
  have one: "is_execution_branch_registered self b \<longrightarrow>
            (\<exists>m. get_mask self b = Inr m
               \<and> is_execution_branch_batch_oriented self b = Inr (\<not> isinstance_bool m))"
    using batch_oriented_of_mask [OF agree, of b]
    by (auto simp: is_execution_branch_registered_def get_mask_def)
  have two: "is_execution_branch_batch_oriented
              (registrations (snd (register_batch_oriented_mask self b s)) rs') b = Inr True"
    if "\<not> is_execution_branch_registered self b"
  proof -
    let ?t = "snd (register self (RegisterBatch b s))"
    from that have "masks ?t b = Some (SetMask s)"
      by (simp add: register_batch_oriented_mask_def is_execution_branch_registered_def)
    then have "masks (registrations ?t rs') b = Some (SetMask s)"
      by (rule masks_registrations_kept)
    moreover have "tables_agree (registrations ?t rs')"
      by (intro tables_agree_registrations tables_agree_register agree)
    ultimately show ?thesis
      using batch_oriented_of_mask by fastforce
  qed
  have three: "is_execution_branch_batch_oriented
              (registrations (snd (register_non_batch_mask self b e)) rs') b = Inr False"
    if "\<not> is_execution_branch_registered self b"
  proof -
    let ?t = "snd (register self (RegisterNonBatch b e))"
    from that have "masks ?t b = Some (BoolMask e)"
      by (simp add: register_non_batch_mask_def is_execution_branch_registered_def)
    then have "masks (registrations ?t rs') b = Some (BoolMask e)"
      by (rule masks_registrations_kept)
    moreover have "tables_agree (registrations ?t rs')"
      by (intro tables_agree_registrations tables_agree_register agree)
    ultimately show ?thesis
      using batch_oriented_of_mask by fastforce
  qed
  have four: "is_execution_branch_registered self b \<longleftrightarrow> b \<in> dom ms \<union> branch_of ` set rs"
    unfolding assms is_execution_branch_registered_def dom_masks_registrations
    by (simp add: BranchingManager_new_def)
  from one two three four show ?thesis by blast
qed

theorem batch_oriented_iff_set_mask_witness:
  "is_execution_branch_registered
     (registrations (BranchingManager_new [''x'' \<mapsto> BoolMask True])
        [RegisterBatch ''cond1'' {[0], [2::nat]}]) ''cond1''
   \<and> (\<exists>m. get_mask
          (registrations (BranchingManager_new [''x'' \<mapsto> BoolMask True])
             [RegisterBatch ''cond1'' {[0], [2::nat]}]) ''cond1'' = Inr m
        \<and> is_execution_branch_batch_oriented
          (registrations (BranchingManager_new [''x'' \<mapsto> BoolMask True])
             [RegisterBatch ''cond1'' {[0], [2::nat]}]) ''cond1'' = Inr (\<not> isinstance_bool m))
   \<and> \<not> is_execution_branch_registered
     (registrations (BranchingManager_new [''x'' \<mapsto> BoolMask True])
        [RegisterBatch ''cond1'' {[0], [2::nat]}]) ''z''
   \<and> is_execution_branch_batch_oriented
       (registrations
          (snd (register_batch_oriented_mask
                 (registrations (BranchingManager_new [''x'' \<mapsto> BoolMask True])
                    [RegisterBatch ''cond1'' {[0], [2::nat]}]) ''z'' {[1]}))
          [RegisterNonBatch ''z'' False]) ''z'' = Inr True
   \<and> is_execution_branch_batch_oriented
       (registrations
          (snd (register_non_batch_mask
                 (registrations (BranchingManager_new [''x'' \<mapsto> BoolMask True])
                    [RegisterBatch ''cond1'' {[0], [2::nat]}]) ''z'' True))
          [RegisterBatch ''z'' {}]) ''z'' = Inr False"
proof -
  let ?W = "registrations (BranchingManager_new [''x'' \<mapsto> BoolMask True])
              [RegisterBatch ''cond1'' {[0], [2::nat]}]"
  have reg: "is_execution_branch_registered ?W ''cond1''"
    unfolding is_execution_branch_registered_def dom_masks_registrations
    by simp
  have unreg: "\<not> is_execution_branch_registered ?W ''z''"
    unfolding is_execution_branch_registered_def dom_masks_registrations
    by (simp add: BranchingManager_new_def)
  from reg
    batch_oriented_iff_set_mask [OF refl, of "[''x'' \<mapsto> BoolMask True]"
      "[RegisterBatch ''cond1'' {[0], [2]}]" "''cond1''"]
  have one: "\<exists>m. get_mask ?W ''cond1'' = Inr m
        \<and> is_execution_branch_batch_oriented ?W ''cond1'' = Inr (\<not> isinstance_bool m)"
    by blast
  from unreg
    batch_oriented_iff_set_mask [OF refl, of "[''x'' \<mapsto> BoolMask True]"
      "[RegisterBatch ''cond1'' {[0], [2]}]" "''z''" "{[1]}" "[RegisterNonBatch ''z'' False]"]
  have two: "is_execution_branch_batch_oriented
       (registrations (snd (register_batch_oriented_mask ?W ''z'' {[1]}))
          [RegisterNonBatch ''z'' False]) ''z'' = Inr True"
    by blast
  from unreg
    batch_oriented_iff_set_mask [OF refl, of "[''x'' \<mapsto> BoolMask True]"
      "[RegisterBatch ''cond1'' {[0], [2]}]" "''z''" _ "[RegisterBatch ''z'' {}]" True]
  have three: "is_execution_branch_batch_oriented
       (registrations (snd (register_non_batch_mask ?W ''z'' True))
          [RegisterBatch ''z'' {}]) ''z'' = Inr False"
    by blast
  from reg unreg one two three show ?thesis by blast
qed

text \<open>
  C10. In any state of the manager, a registration of either kind that raises leaves the
  manager as it was: both tables are unchanged, so after any further registrations every
  \<open>get_mask\<close>, \<open>is_execution_branch_batch_oriented\<close> and
  \<open>is_execution_branch_registered\<close>, on every branch, gives what it gives when the failed
  call is left out. The error raised is the re-registration error.
\<close>

theorem failed_registration_atomic:
  assumes "fst (register_batch_oriented_mask self b s) = Inl err1
         \<or> fst (register_non_batch_mask self b e) = Inl err2"
  shows "snd (register_batch_oriented_mask self b s) = self
       \<and> snd (register_non_batch_mask self b e) = self
       \<and> fst (register_batch_oriented_mask self b s) = Inl (re_register_error b)
       \<and> fst (register_non_batch_mask self b e) = Inl (re_register_error b)
       \<and> get_mask (registrations (snd (register_batch_oriented_mask self b s)) rs) b'
           = get_mask (registrations self rs) b'
       \<and> get_mask (registrations (snd (register_non_batch_mask self b e)) rs) b'
           = get_mask (registrations self rs) b'
       \<and> is_execution_branch_batch_oriented
             (registrations (snd (register_batch_oriented_mask self b s)) rs) b'
           = is_execution_branch_batch_oriented (registrations self rs) b'
       \<and> is_execution_branch_batch_oriented
             (registrations (snd (register_non_batch_mask self b e)) rs) b'
           = is_execution_branch_batch_oriented (registrations self rs) b'
       \<and> is_execution_branch_registered
             (registrations (snd (register_batch_oriented_mask self b s)) rs) b'
           = is_execution_branch_registered (registrations self rs) b'
       \<and> is_execution_branch_registered
             (registrations (snd (register_non_batch_mask self b e)) rs) b'
           = is_execution_branch_registered (registrations self rs) b'"
proof -
  from assms have "b \<in> dom (masks self)"
    by (auto simp: register_batch_oriented_mask_def register_non_batch_mask_def
        split: if_splits)
  then have "register_batch_oriented_mask self b s = (Inl (re_register_error b), self)"
    and "register_non_batch_mask self b e = (Inl (re_register_error b), self)"
    by (simp_all add: register_batch_oriented_mask_def register_non_batch_mask_def)
  then show ?thesis by simp
qed

theorem failed_registration_atomic_witness:
  "fst (register_batch_oriented_mask
          (registrations init [RegisterNonBatch ''a'' True]) ''a'' {[0::nat]})
     = Inl (re_register_error ''a'')
   \<and> snd (register_batch_oriented_mask
          (registrations init [RegisterNonBatch ''a'' True]) ''a'' {[0::nat]})
     = registrations init [RegisterNonBatch ''a'' True]
   \<and> get_mask (registrations
        (snd (register_batch_oriented_mask
               (registrations init [RegisterNonBatch ''a'' True]) ''a'' {[0::nat]}))
        [RegisterBatch ''c'' {}]) ''a''
     = get_mask (registrations (registrations init [RegisterNonBatch ''a'' True])
        [RegisterBatch ''c'' {}]) ''a''"
proof -
  let ?W = "registrations init [RegisterNonBatch ''a'' True] :: nat list BranchingManager"
  have fails: "fst (register_batch_oriented_mask ?W ''a'' {[0]}) = Inl (re_register_error ''a'')"
    by (simp add: register_batch_oriented_mask_def register_non_batch_mask_def)
  from failed_registration_atomic
         [of ?W "''a''" "{[0]}" "re_register_error ''a''" True _ "[RegisterBatch ''c'' {}]" "''a''"]
       fails
  show ?thesis by blast
qed

section \<open>Directed graphs (networkx.DiGraph)\<close>

text \<open>
  A \<^verbatim>\<open>DiGraph\<close> keeps its nodes, each with its attributes, and its edges in insertion
  order; a node and an edge occur once. The attribute of a node of the execution graph is
  its category; the attribute of a node of the steps flow graph is its distance, absent
  until assigned.
\<close>

record 'a DiGraph =
  nodes :: "(string \<times> 'a) list"
  edges :: "(string \<times> string) list"

definition DiGraph_new :: "'a DiGraph" where
  "DiGraph_new = \<lparr> nodes = [], edges = [] \<rparr>"

definition node_names :: "'a DiGraph \<Rightarrow> string list" where
  "node_names g = map fst (nodes g)"

text \<open>\<^verbatim>\<open>add_node\<close>: a node already there is kept as it is; \<open>d\<close> is the attribute of a new node.\<close>

definition add_node :: "'a DiGraph \<Rightarrow> string \<Rightarrow> 'a \<Rightarrow> 'a DiGraph" where
  "add_node g v d = (if v \<in> set (node_names g) then g else g\<lparr> nodes := nodes g @ [(v, d)] \<rparr>)"

text \<open>\<^verbatim>\<open>add_edge\<close>: adds the end points that are missing, then the edge unless it is there.\<close>

definition add_edge :: "'a DiGraph \<Rightarrow> string \<Rightarrow> string \<Rightarrow> 'a \<Rightarrow> 'a DiGraph" where
  "add_edge g u v d =
     (let g1 = add_node g u d; g2 = add_node g1 v d
      in if (u, v) \<in> set (edges g2) then g2 else g2\<lparr> edges := edges g2 @ [(u, v)] \<rparr>)"

definition predecessors :: "'a DiGraph \<Rightarrow> string \<Rightarrow> string list" where
  "predecessors g v = map fst (filter (\<lambda>e. snd e = v) (edges g))"

definition successors :: "'a DiGraph \<Rightarrow> string \<Rightarrow> string list" where
  "successors g v = map snd (filter (\<lambda>e. fst e = v) (edges g))"

section \<open>Steps flow graph (flow\_coordinator.py)\<close>

text \<open>
  Modelled from the spec: the enumeration \<^verbatim>\<open>NodeCategory\<close> of the compiler's entities,
  which is not among the sources. The spec tags a node of the execution graph as a Step
  or as Data (an input, an output or an intermediate value).
\<close>

datatype NodeCategory = STEP_NODE | DATA_NODE

text \<open>
  Modelled from the spec: \<^verbatim>\<open>get_nodes_of_specific_category\<close> of the compiler's utilities,
  which is not among the sources: it enumerates the nodes of a given category. They are
  listed in the order of the graph; nothing proved below depends on that order.
\<close>

definition get_nodes_of_specific_category :: "NodeCategory DiGraph \<Rightarrow> NodeCategory \<Rightarrow> string list" where
  "get_nodes_of_specific_category execution_graph category =
     map fst (filter (\<lambda>n. snd n = category) (nodes execution_graph))"

text \<open>
  The body of the loop over \<^verbatim>\<open>step_nodes\<close> in \<^verbatim>\<open>construct_steps_flow_graph\<close>: the edges
  from the predecessors, the edge from the start node when there is no predecessor, the
  edges to the successors that are steps.
\<close>

definition add_step_node_edges ::
  "NodeCategory DiGraph \<Rightarrow> string list \<Rightarrow> string \<Rightarrow> nat option DiGraph \<Rightarrow> string \<Rightarrow> nat option DiGraph" where
  "add_step_node_edges execution_graph step_nodes super_start_node steps_flow_graph step_node =
     (let preds = predecessors execution_graph step_node;
          g1 = foldl (\<lambda>g predecessor.
                        add_edge g (if predecessor \<in> set step_nodes then predecessor
                                    else super_start_node) step_node None)
                     steps_flow_graph preds;
          has_predecessors = (preds \<noteq> []);
          g2 = (if \<not> has_predecessors then add_edge g1 super_start_node step_node None else g1)
      in foldl (\<lambda>g successor. if successor \<in> set step_nodes
                               then add_edge g step_node successor None else g)
               g2 (successors execution_graph step_node))"

definition construct_steps_flow_graph :: "NodeCategory DiGraph \<Rightarrow> string \<Rightarrow> nat option DiGraph" where
  "construct_steps_flow_graph execution_graph super_start_node =
     (let steps_flow_graph = add_node DiGraph_new super_start_node None;
          step_nodes = get_nodes_of_specific_category execution_graph STEP_NODE
      in foldl (add_step_node_edges execution_graph step_nodes super_start_node)
               steps_flow_graph step_nodes)"

section \<open>Layering\<close>

text \<open>
  Modelled from the spec: \<^verbatim>\<open>assign_max_distances_from_start\<close> of the compiler's graph
  constructor, which is not among the sources. The spec: the start node has distance 0;
  every other node has as distance the maximum, over its incoming edges, of the distance
  of the edge's source plus 1. \<open>max_distance\<close> follows incoming edges backwards for at
  most \<open>fuel\<close> edges; a node whose distance is not determined that way (a node other than
  the start node with no incoming edge, a node on or behind a cycle) has none.
\<close>

fun max_distance :: "nat \<Rightarrow> 'a DiGraph \<Rightarrow> string \<Rightarrow> string \<Rightarrow> nat option" where
  "max_distance 0 graph start_node v = (if v = start_node then Some 0 else None)"
| "max_distance (Suc fuel) graph start_node v =
     (if v = start_node then Some 0
      else case predecessors graph v of
             [] \<Rightarrow> None
           | p # ps \<Rightarrow>
               map_option (\<lambda>ds. Max (set (map (\<lambda>d. d + 1) ds)))
                 (those (map (max_distance fuel graph start_node) (p # ps))))"

text \<open>
  A chain of incoming edges of an acyclic graph passes each node once, so as many edges as
  the graph has nodes are enough (\<open>max_distance_fuel\<close> below: more change nothing).
\<close>

definition assign_max_distances_from_start :: "'a DiGraph \<Rightarrow> string \<Rightarrow> nat option DiGraph" where
  "assign_max_distances_from_start graph start_node =
     \<lparr> nodes = map (\<lambda>n. (fst n, max_distance (length (nodes graph)) graph start_node (fst n)))
                   (nodes graph),
       edges = edges graph \<rparr>"

text \<open>
  Modelled from the spec: \<^verbatim>\<open>group_nodes_by_sorted_key_value\<close> of the compiler's graph
  constructor, which is not among the sources. The spec: the nodes, the excluded ones
  apart, are grouped by equal distance, the groups in ascending order of the distance.
  There is no grouping (\<open>None\<close>) when a node to be grouped has no distance.
\<close>

definition group_nodes_by_sorted_key_value ::
  "nat option DiGraph \<Rightarrow> string set \<Rightarrow> string list list option" where
  "group_nodes_by_sorted_key_value graph excluded_nodes =
     (let kept = filter (\<lambda>n. fst n \<notin> excluded_nodes) (nodes graph)
      in case those (map snd kept) of
           None \<Rightarrow> None
         | Some ds \<Rightarrow>
             Some (map (\<lambda>k. map fst (filter (\<lambda>n. snd n = Some k) kept)) (sort (remdups ds))))"

definition establish_execution_order :: "NodeCategory DiGraph \<Rightarrow> string list list option" where
  "establish_execution_order execution_graph =
     (let super_start_node = ''<start>'';
          steps_flow_graph = construct_steps_flow_graph execution_graph super_start_node;
          steps_flow_graph = assign_max_distances_from_start steps_flow_graph super_start_node
      in group_nodes_by_sorted_key_value steps_flow_graph {super_start_node})"

section \<open>Step execution coordinator (flow\_coordinator.py)\<close>

record ParallelStepExecutionCoordinator =
  self_execution_graph :: "NodeCategory DiGraph"
  self_discarded_steps :: "string set"
  self_execution_order :: "string list list option"
  self_execution_pointer :: nat

text \<open>\<^verbatim>\<open>init\<close> and \<^verbatim>\<open>__init__\<close> of the coordinator.\<close>

definition coordinator_init :: "NodeCategory DiGraph \<Rightarrow> ParallelStepExecutionCoordinator" where
  "coordinator_init execution_graph =
     \<lparr> self_execution_graph = execution_graph,
       self_discarded_steps = {},
       self_execution_order = None,
       self_execution_pointer = 0 \<rparr>"

text \<open>
  The \<^verbatim>\<open>while\<close> loop of \<^verbatim>\<open>get_steps_to_execute_next\<close>: the value returned and the
  pointer when the loop is left.
\<close>

function advance_pointer :: "string list list \<Rightarrow> string set \<Rightarrow> nat \<Rightarrow> string list option \<times> nat" where
  "advance_pointer execution_order discarded_steps execution_pointer =
     (if execution_pointer < length execution_order then
        (let candidate_steps = filter (\<lambda>e. e \<notin> discarded_steps) (execution_order ! execution_pointer)
         in if length candidate_steps = 0
            then advance_pointer execution_order discarded_steps (execution_pointer + 1)
            else (Some candidate_steps, execution_pointer + 1))
      else (None, execution_pointer))"
  by pat_completeness auto
termination
  by (relation "measure (\<lambda>(execution_order, discarded_steps, execution_pointer).
                           length execution_order - execution_pointer)") auto

text \<open>
  The outcome of a call and the coordinator as the call leaves it. When the layering is
  asked for and does not exist, the call is left before anything is assigned.
\<close>

definition get_steps_to_execute_next ::
  "ParallelStepExecutionCoordinator \<Rightarrow> string set
   \<Rightarrow> (error + string list option) \<times> ParallelStepExecutionCoordinator" where
  "get_steps_to_execute_next self steps_to_discard =
     (case (case self_execution_order self of
              None \<Rightarrow>
                (case establish_execution_order (self_execution_graph self) of
                   None \<Rightarrow> None
                 | Some layers \<Rightarrow>
                     Some (layers, self\<lparr> self_execution_order := Some layers,
                                        self_execution_pointer := 0 \<rparr>))
            | Some layers \<Rightarrow> Some (layers, self)) of
        None \<Rightarrow> (Inl LayeringError, self)
      | Some (layers, self1) \<Rightarrow>
          (let self2 = self1\<lparr> self_discarded_steps := self_discarded_steps self1 \<union> steps_to_discard \<rparr>;
               (next_step, pointer) =
                  advance_pointer layers (self_discarded_steps self2) (self_execution_pointer self2)
           in (Inr next_step, self2\<lparr> self_execution_pointer := pointer \<rparr>)))"

text \<open>
  A run of the coordinator: one call for each discard set of the list; for each call its
  outcome and the coordinator after it.
\<close>

fun calls ::
  "ParallelStepExecutionCoordinator \<Rightarrow> string set list
   \<Rightarrow> ((error + string list option) \<times> ParallelStepExecutionCoordinator) list" where
  "calls self [] = []"
| "calls self (d # ds) =
     get_steps_to_execute_next self d # calls (snd (get_steps_to_execute_next self d)) ds"

text \<open>
  The layering a coordinator works with, and the layer it looks at next: those it holds,
  or, before its first call, the layering of its graph and its first layer.
\<close>

definition layering_of :: "ParallelStepExecutionCoordinator \<Rightarrow> string list list option" where
  "layering_of self =
     (case self_execution_order self of
        None \<Rightarrow> establish_execution_order (self_execution_graph self)
      | Some layers \<Rightarrow> Some layers)"

definition pointer_of :: "ParallelStepExecutionCoordinator \<Rightarrow> nat" where
  "pointer_of self =
     (case self_execution_order self of None \<Rightarrow> 0 | Some layers \<Rightarrow> self_execution_pointer self)"

text \<open>
  The scenario of the spec: steps A, B and C, with the edges A \<open>\<rightarrow>\<close> C and B \<open>\<rightarrow>\<close> C, here fed
  by an input and feeding an output.
\<close>

definition scenario_graph :: "NodeCategory DiGraph" where
  "scenario_graph =
     \<lparr> nodes = [(''in'', DATA_NODE), (''A'', STEP_NODE), (''B'', STEP_NODE),
               (''C'', STEP_NODE), (''out'', DATA_NODE)],
       edges = [(''in'', ''A''), (''A'', ''C''), (''B'', ''C''), (''C'', ''out'')] \<rparr>"

subsection \<open>The loop\<close>

declare advance_pointer.simps [simp del]

lemma filter_not_in_Nil: "filter (\<lambda>e. e \<notin> D) xs = [] \<longleftrightarrow> set xs \<subseteq> D"
  by (auto simp: filter_empty_conv)

lemma advance_pointer_Some:
  "advance_pointer ls D p = (Some xs, q) \<Longrightarrow>
     p < q \<and> q \<le> length ls \<and> xs = filter (\<lambda>e. e \<notin> D) (ls ! (q - 1)) \<and> xs \<noteq> []
     \<and> (\<forall>j. p \<le> j \<and> j < q - 1 \<longrightarrow> set (ls ! j) \<subseteq> D)"
proof (induction ls D p rule: advance_pointer.induct)
  case (1 ls D p)
  show ?case
  proof (cases "p < length ls")
    case False
    with "1.prems" show ?thesis by (simp add: advance_pointer.simps [of ls D p])
  next
    case inside: True
    show ?thesis
    proof (cases "filter (\<lambda>e. e \<notin> D) (ls ! p) = []")
      case True
      with inside "1.prems" have rec: "advance_pointer ls D (p + 1) = (Some xs, q)"
        by (simp add: advance_pointer.simps [of ls D p])
      from "1.IH" [OF inside refl _ rec] True
      have ih: "p + 1 < q \<and> q \<le> length ls \<and> xs = filter (\<lambda>e. e \<notin> D) (ls ! (q - 1)) \<and> xs \<noteq> []
            \<and> (\<forall>j. p + 1 \<le> j \<and> j < q - 1 \<longrightarrow> set (ls ! j) \<subseteq> D)"
        by auto
      from True have here: "set (ls ! p) \<subseteq> D" by (simp add: filter_not_in_Nil)
      have below: "set (ls ! j) \<subseteq> D" if "p \<le> j \<and> j < q - 1" for j
      proof (cases "j = p")
        case True with here show ?thesis by simp
      next
        case False with that ih show ?thesis by simp
      qed
      from ih have "p < q" by simp
      with ih below show ?thesis by blast
    next
      case False
      with inside "1.prems" show ?thesis
        by (auto simp: advance_pointer.simps [of ls D p])
    qed
  qed
qed

lemma advance_pointer_None:
  "advance_pointer ls D p = (None, q) \<Longrightarrow>
     q = max p (length ls) \<and> (\<forall>j. p \<le> j \<and> j < length ls \<longrightarrow> set (ls ! j) \<subseteq> D)"
proof (induction ls D p rule: advance_pointer.induct)
  case (1 ls D p)
  show ?case
  proof (cases "p < length ls")
    case False
    with "1.prems" show ?thesis by (auto simp: advance_pointer.simps [of ls D p])
  next
    case inside: True
    show ?thesis
    proof (cases "filter (\<lambda>e. e \<notin> D) (ls ! p) = []")
      case True
      with inside "1.prems" have rec: "advance_pointer ls D (p + 1) = (None, q)"
        by (simp add: advance_pointer.simps [of ls D p])
      from "1.IH" [OF inside refl _ rec] True
      have ih: "q = max (p + 1) (length ls) \<and> (\<forall>j. p + 1 \<le> j \<and> j < length ls \<longrightarrow> set (ls ! j) \<subseteq> D)"
        by simp
      from True have here: "set (ls ! p) \<subseteq> D" by (simp add: filter_not_in_Nil)
      have "set (ls ! j) \<subseteq> D" if "p \<le> j \<and> j < length ls" for j
      proof (cases "j = p")
        case True with here show ?thesis by simp
      next
        case False with that ih show ?thesis by simp
      qed
      with ih inside show ?thesis by (simp add: max_def)
    next
      case False
      with inside "1.prems" show ?thesis
        by (auto simp: advance_pointer.simps [of ls D p])
    qed
  qed
qed

lemma advance_pointer_exhausted:
  "length ls \<le> p \<Longrightarrow> advance_pointer ls D p = (None, p)"
  by (simp add: advance_pointer.simps [of ls D p])

lemma advance_pointer_cong:
  "\<forall>l \<in> set ls. \<forall>e \<in> set l. e \<in> D \<longleftrightarrow> e \<in> D' \<Longrightarrow>
   advance_pointer ls D p = advance_pointer ls D' p"
proof (induction ls D p rule: advance_pointer.induct)
  case (1 ls D p)
  show ?case
  proof (cases "p < length ls")
    case False
    then show ?thesis
      by (simp add: advance_pointer.simps [of ls D p] advance_pointer.simps [of ls D' p])
  next
    case inside: True
    then have mem: "ls ! p \<in> set ls" by simp
    with "1.prems" have same: "filter (\<lambda>e. e \<notin> D) (ls ! p) = filter (\<lambda>e. e \<notin> D') (ls ! p)"
      by (intro filter_cong) auto
    show ?thesis
    proof (cases "filter (\<lambda>e. e \<notin> D) (ls ! p) = []")
      case True
      from "1.IH" [OF inside refl _ "1.prems"] True
      have "advance_pointer ls D (p + 1) = advance_pointer ls D' (p + 1)" by simp
      with True same inside show ?thesis
        by (simp add: advance_pointer.simps [of ls D p] advance_pointer.simps [of ls D' p])
    next
      case False
      with same inside show ?thesis
        by (simp add: advance_pointer.simps [of ls D p] advance_pointer.simps [of ls D' p])
    qed
  qed
qed

lemma get_steps_unfold:
  assumes "layering_of self = Some ls"
  shows "get_steps_to_execute_next self d =
     (Inr (fst (advance_pointer ls (self_discarded_steps self \<union> d) (pointer_of self))),
      self\<lparr> self_execution_order := Some ls,
            self_discarded_steps := self_discarded_steps self \<union> d,
            self_execution_pointer :=
              snd (advance_pointer ls (self_discarded_steps self \<union> d) (pointer_of self)) \<rparr>)"
  using assms
  by (cases "self_execution_order self")
     (auto simp: get_steps_to_execute_next_def layering_of_def pointer_of_def
        split: prod.splits option.splits)

lemma get_steps_no_layering:
  "layering_of self = None \<Longrightarrow> get_steps_to_execute_next self d = (Inl LayeringError, self)"
  by (cases "self_execution_order self")
     (auto simp: get_steps_to_execute_next_def layering_of_def split: option.splits)

subsection \<open>One call\<close>

lemma layering_of_scenario:
  "layering_of (coordinator_init scenario_graph) = Some [[''A'', ''B''], [''C'']]"
  unfolding scenario_graph_def by code_simp

text \<open>
  C4. A call on a coordinator whose layering exists returns (it raises nothing), and the
  discard set after the call is the one before joined with the names given. With that
  set: when the call returns steps, they are the steps not discarded of a layer \<open>k\<close>
  at or after the pointer that has a step not discarded, every layer from the pointer up
  to \<open>k\<close> has all its steps discarded, and the pointer is left just after \<open>k\<close>; when the
  call returns \<open>None\<close>, every layer from the pointer on has all its steps discarded and
  the pointer is left at the end. The empty list is never returned.
\<close>

theorem next_steps_first_live_layer:
  assumes "layering_of self = Some layers"
  shows "\<exists>r self'. get_steps_to_execute_next self steps_to_discard = (Inr r, self')
     \<and> self_discarded_steps self' = self_discarded_steps self \<union> steps_to_discard
     \<and> layering_of self' = Some layers
     \<and> r \<noteq> Some []
     \<and> (case r of
          Some steps \<Rightarrow>
            (\<exists>k. pointer_of self \<le> k \<and> k < length layers
               \<and> (\<forall>j. pointer_of self \<le> j \<and> j < k
                      \<longrightarrow> set (layers ! j) \<subseteq> self_discarded_steps self')
               \<and> \<not> set (layers ! k) \<subseteq> self_discarded_steps self'
               \<and> steps = filter (\<lambda>e. e \<notin> self_discarded_steps self') (layers ! k)
               \<and> pointer_of self' = k + 1)
        | None \<Rightarrow>
            (\<forall>j. pointer_of self \<le> j \<and> j < length layers
                \<longrightarrow> set (layers ! j) \<subseteq> self_discarded_steps self')
            \<and> pointer_of self' = max (pointer_of self) (length layers))"
proof -
  let ?D = "self_discarded_steps self \<union> steps_to_discard"
  obtain r q where adv: "advance_pointer layers ?D (pointer_of self) = (r, q)"
    by (cases "advance_pointer layers ?D (pointer_of self)")
  define self' where "self' = self\<lparr> self_execution_order := Some layers,
            self_discarded_steps := ?D, self_execution_pointer := q \<rparr>"
  have call: "get_steps_to_execute_next self steps_to_discard = (Inr r, self')"
    using get_steps_unfold [OF assms, of steps_to_discard] adv by (simp add: self'_def)
  have after: "?D = self_discarded_steps self'" "q = pointer_of self'"
    by (simp_all add: self'_def pointer_of_def)
  have lay: "layering_of self' = Some layers"
    by (simp add: self'_def layering_of_def)
  have shape: "r \<noteq> Some [] \<and> (case r of
          Some steps \<Rightarrow>
            (\<exists>k. pointer_of self \<le> k \<and> k < length layers
               \<and> (\<forall>j. pointer_of self \<le> j \<and> j < k \<longrightarrow> set (layers ! j) \<subseteq> ?D)
               \<and> \<not> set (layers ! k) \<subseteq> ?D
               \<and> steps = filter (\<lambda>e. e \<notin> ?D) (layers ! k)
               \<and> q = k + 1)
        | None \<Rightarrow>
            (\<forall>j. pointer_of self \<le> j \<and> j < length layers \<longrightarrow> set (layers ! j) \<subseteq> ?D)
            \<and> q = max (pointer_of self) (length layers))"
  proof (cases r)
    case None
    with adv advance_pointer_None [of layers ?D "pointer_of self" q] show ?thesis by simp
  next
    case (Some steps)
    with adv have "advance_pointer layers ?D (pointer_of self) = (Some steps, q)" by simp
    note all = advance_pointer_Some [OF this]
    have facts: "pointer_of self < q" "q \<le> length layers"
      "steps = filter (\<lambda>e. e \<notin> ?D) (layers ! (q - 1))" "steps \<noteq> []"
      "\<forall>j. pointer_of self \<le> j \<and> j < q - 1 \<longrightarrow> set (layers ! j) \<subseteq> ?D"
      using all by blast+
    from facts(3,4) have live: "\<not> set (layers ! (q - 1)) \<subseteq> ?D"
      using filter_not_in_Nil [of ?D "layers ! (q - 1)"] by simp
    from facts(1,2) have idx: "pointer_of self \<le> q - 1" "q - 1 < length layers" "q = (q - 1) + 1"
      by simp_all
    have "\<exists>k. pointer_of self \<le> k \<and> k < length layers
               \<and> (\<forall>j. pointer_of self \<le> j \<and> j < k \<longrightarrow> set (layers ! j) \<subseteq> ?D)
               \<and> \<not> set (layers ! k) \<subseteq> ?D
               \<and> steps = filter (\<lambda>e. e \<notin> ?D) (layers ! k)
               \<and> q = k + 1"
      using idx facts(3,5) live by blast
    with Some facts(4) show ?thesis by simp
  qed
  from shape have "r \<noteq> Some [] \<and> (case r of
          Some steps \<Rightarrow>
            (\<exists>k. pointer_of self \<le> k \<and> k < length layers
               \<and> (\<forall>j. pointer_of self \<le> j \<and> j < k
                      \<longrightarrow> set (layers ! j) \<subseteq> self_discarded_steps self')
               \<and> \<not> set (layers ! k) \<subseteq> self_discarded_steps self'
               \<and> steps = filter (\<lambda>e. e \<notin> self_discarded_steps self') (layers ! k)
               \<and> pointer_of self' = k + 1)
        | None \<Rightarrow>
            (\<forall>j. pointer_of self \<le> j \<and> j < length layers
                \<longrightarrow> set (layers ! j) \<subseteq> self_discarded_steps self')
            \<and> pointer_of self' = max (pointer_of self) (length layers))"
    by (simp only: after) simp
  with call lay after(1) show ?thesis by blast
qed

theorem next_steps_first_live_layer_witness:
  "layering_of (coordinator_init scenario_graph) = Some [[''A'', ''B''], [''C'']]
   \<and> fst (get_steps_to_execute_next (coordinator_init scenario_graph) {''A'', ''B''})
       = Inr (Some [''C''])
   \<and> (\<exists>k. k < length [[''A'', ''B''], [''C'']]
         \<and> \<not> set ([[''A'', ''B''], [''C'']] ! k) \<subseteq> self_discarded_steps
               (snd (get_steps_to_execute_next (coordinator_init scenario_graph) {''A'', ''B''}))
         \<and> [''C''] = filter (\<lambda>e. e \<notin> self_discarded_steps
               (snd (get_steps_to_execute_next (coordinator_init scenario_graph) {''A'', ''B''})))
             ([[''A'', ''B''], [''C'']] ! k)
         \<and> pointer_of
               (snd (get_steps_to_execute_next (coordinator_init scenario_graph) {''A'', ''B''}))
             = k + 1)"
proof -
  let ?c = "coordinator_init scenario_graph"
  note lay = layering_of_scenario
  have res: "fst (get_steps_to_execute_next ?c {''A'', ''B''}) = Inr (Some [''C''])"
    unfolding scenario_graph_def by code_simp
  from next_steps_first_live_layer [OF lay, of "{''A'', ''B''}"]
  obtain r self' where call: "get_steps_to_execute_next ?c {''A'', ''B''} = (Inr r, self')"
    and shape: "(case r of
          Some steps \<Rightarrow>
            (\<exists>k. pointer_of ?c \<le> k \<and> k < length [[''A'', ''B''], [''C'']]
               \<and> (\<forall>j. pointer_of ?c \<le> j \<and> j < k
                      \<longrightarrow> set ([[''A'', ''B''], [''C'']] ! j) \<subseteq> self_discarded_steps self')
               \<and> \<not> set ([[''A'', ''B''], [''C'']] ! k) \<subseteq> self_discarded_steps self'
               \<and> steps = filter (\<lambda>e. e \<notin> self_discarded_steps self') ([[''A'', ''B''], [''C'']] ! k)
               \<and> pointer_of self' = k + 1)
        | None \<Rightarrow>
            (\<forall>j. pointer_of ?c \<le> j \<and> j < length [[''A'', ''B''], [''C'']]
                \<longrightarrow> set ([[''A'', ''B''], [''C'']] ! j) \<subseteq> self_discarded_steps self')
            \<and> pointer_of self' = max (pointer_of ?c) (length [[''A'', ''B''], [''C'']]))"
    by blast
  from call res have r: "r = Some [''C'']" by simp
  from call have s: "snd (get_steps_to_execute_next ?c {''A'', ''B''}) = self'" by simp
  from shape [unfolded r option.case]
  obtain k where "k < length [[''A'', ''B''], [''C'']]"
     "\<not> set ([[''A'', ''B''], [''C'']] ! k) \<subseteq> self_discarded_steps self'"
     "[''C''] = filter (\<lambda>e. e \<notin> self_discarded_steps self') ([[''A'', ''B''], [''C'']] ! k)"
     "pointer_of self' = k + 1"
    by blast
  then have "\<exists>k. k < length [[''A'', ''B''], [''C'']]
         \<and> \<not> set ([[''A'', ''B''], [''C'']] ! k) \<subseteq> self_discarded_steps self'
         \<and> [''C''] = filter (\<lambda>e. e \<notin> self_discarded_steps self') ([[''A'', ''B''], [''C'']] ! k)
         \<and> pointer_of self' = k + 1"
    by blast
  with lay res show ?thesis unfolding s by blast
qed

subsection \<open>Runs of calls\<close>

lemma get_steps_after:
  assumes "layering_of self = Some ls"
  shows "layering_of (snd (get_steps_to_execute_next self d)) = Some ls"
    and "pointer_of self \<le> pointer_of (snd (get_steps_to_execute_next self d))"
    and "self_discarded_steps (snd (get_steps_to_execute_next self d)) = self_discarded_steps self \<union> d"
    and "\<exists>r. fst (get_steps_to_execute_next self d) = Inr r"
proof -
  let ?D = "self_discarded_steps self \<union> d"
  obtain r q where adv: "advance_pointer ls ?D (pointer_of self) = (r, q)"
    by (cases "advance_pointer ls ?D (pointer_of self)")
  have "pointer_of self \<le> q"
  proof (cases r)
    case None
    with adv advance_pointer_None [of ls ?D "pointer_of self" q] show ?thesis by simp
  next
    case (Some xs)
    with adv advance_pointer_Some [of ls ?D "pointer_of self" xs q] show ?thesis by simp
  qed
  with adv get_steps_unfold [OF assms, of d]
  show "layering_of (snd (get_steps_to_execute_next self d)) = Some ls"
    and "pointer_of self \<le> pointer_of (snd (get_steps_to_execute_next self d))"
    and "self_discarded_steps (snd (get_steps_to_execute_next self d)) = self_discarded_steps self \<union> d"
    and "\<exists>r. fst (get_steps_to_execute_next self d) = Inr r"
    by (simp_all add: layering_of_def pointer_of_def)
qed

lemma get_steps_Some:
  assumes "layering_of self = Some ls"
      and "fst (get_steps_to_execute_next self d) = Inr (Some xs)"
  shows "pointer_of self < pointer_of (snd (get_steps_to_execute_next self d))"
    and "pointer_of (snd (get_steps_to_execute_next self d)) \<le> length ls"
    and "xs = filter (\<lambda>e. e \<notin> self_discarded_steps (snd (get_steps_to_execute_next self d)))
                (ls ! (pointer_of (snd (get_steps_to_execute_next self d)) - 1))"
proof -
  let ?D = "self_discarded_steps self \<union> d"
  obtain r q where adv: "advance_pointer ls ?D (pointer_of self) = (r, q)"
    by (cases "advance_pointer ls ?D (pointer_of self)")
  from assms(2) adv get_steps_unfold [OF assms(1), of d] have "r = Some xs" by simp
  with adv have "advance_pointer ls ?D (pointer_of self) = (Some xs, q)" by simp
  note facts = advance_pointer_Some [OF this]
  have after: "pointer_of (snd (get_steps_to_execute_next self d)) = q"
    "self_discarded_steps (snd (get_steps_to_execute_next self d)) = ?D"
    using adv get_steps_unfold [OF assms(1), of d] by (simp_all add: pointer_of_def)
  from facts show "pointer_of self < pointer_of (snd (get_steps_to_execute_next self d))"
    and "pointer_of (snd (get_steps_to_execute_next self d)) \<le> length ls"
    and "xs = filter (\<lambda>e. e \<notin> self_discarded_steps (snd (get_steps_to_execute_next self d)))
                (ls ! (pointer_of (snd (get_steps_to_execute_next self d)) - 1))"
    unfolding after by blast+
qed

lemma get_steps_None:
  assumes "layering_of self = Some ls"
      and "fst (get_steps_to_execute_next self d) = Inr None"
  shows "length ls \<le> pointer_of (snd (get_steps_to_execute_next self d))"
proof -
  let ?D = "self_discarded_steps self \<union> d"
  obtain r q where adv: "advance_pointer ls ?D (pointer_of self) = (r, q)"
    by (cases "advance_pointer ls ?D (pointer_of self)")
  from assms(2) adv get_steps_unfold [OF assms(1), of d] have "r = None" by simp
  with adv advance_pointer_None [of ls ?D "pointer_of self" q]
  have "q = max (pointer_of self) (length ls)" by simp
  moreover have "pointer_of (snd (get_steps_to_execute_next self d)) = q"
    using adv get_steps_unfold [OF assms(1), of d] by (simp add: pointer_of_def)
  ultimately show ?thesis by simp
qed

lemma get_steps_exhausted:
  assumes "layering_of self = Some ls" and "length ls \<le> pointer_of self"
  shows "fst (get_steps_to_execute_next self d) = Inr None"
  using get_steps_unfold [OF assms(1), of d] advance_pointer_exhausted [OF assms(2)]
  by simp

lemma length_calls: "length (calls self ds) = length ds"
  by (induction ds arbitrary: self) simp_all

text \<open>What holds of every call of a run, with respect to the coordinator the run starts from.\<close>

lemma calls_entry:
  assumes "layering_of self = Some ls" and "j < length ds"
  shows "layering_of (snd (calls self ds ! j)) = Some ls"
    and "pointer_of self \<le> pointer_of (snd (calls self ds ! j))"
    and "self_discarded_steps self \<subseteq> self_discarded_steps (snd (calls self ds ! j))"
    and "\<exists>r. fst (calls self ds ! j) = Inr r"
    and "length ls \<le> pointer_of self \<Longrightarrow> fst (calls self ds ! j) = Inr None"
    and "fst (calls self ds ! j) = Inr (Some xs) \<Longrightarrow>
           pointer_of self < pointer_of (snd (calls self ds ! j))
         \<and> pointer_of (snd (calls self ds ! j)) \<le> length ls
         \<and> xs = filter (\<lambda>e. e \<notin> self_discarded_steps (snd (calls self ds ! j)))
                 (ls ! (pointer_of (snd (calls self ds ! j)) - 1))"
  using assms
proof (induction ds arbitrary: self j)
  case Nil
  {
    case 1 then show ?case by simp
  next
    case 2 then show ?case by simp
  next
    case 3 then show ?case by simp
  next
    case 4 then show ?case by simp
  next
    case 5 then show ?case by simp
  next
    case 6 then show ?case by simp
  }
next
  case (Cons d ds)
  {
    case 1
    note lay = get_steps_after(1) [OF "1"(1), of d]
    show ?case
    proof (cases j)
      case 0 with lay show ?thesis by simp
    next
      case (Suc j')
      with "1"(2) Cons.IH(1) [OF lay, of j'] show ?thesis by simp
    qed
  next
    case 2
    note lay = get_steps_after(1) [OF "2"(1), of d]
    note mono = get_steps_after(2) [OF "2"(1), of d]
    show ?case
    proof (cases j)
      case 0 with mono show ?thesis by simp
    next
      case (Suc j')
      with "2"(2) Cons.IH(2) [OF lay, of j'] mono show ?thesis by simp
    qed
  next
    case 3
    note lay = get_steps_after(1) [OF "3"(1), of d]
    note disc = get_steps_after(3) [OF "3"(1), of d]
    show ?case
    proof (cases j)
      case 0 with disc show ?thesis by simp
    next
      case (Suc j')
      with "3"(2) Cons.IH(3) [OF lay, of j'] disc show ?thesis by auto
    qed
  next
    case 4
    note lay = get_steps_after(1) [OF "4"(1), of d]
    show ?case
    proof (cases j)
      case 0 with get_steps_after(4) [OF "4"(1), of d] show ?thesis by simp
    next
      case (Suc j')
      with "4"(2) Cons.IH(4) [OF lay, of j'] show ?thesis by simp
    qed
  next
    case 5
    note lay = get_steps_after(1) [OF "5"(2), of d]
    note mono = get_steps_after(2) [OF "5"(2), of d]
    show ?case
    proof (cases j)
      case 0 with get_steps_exhausted [OF "5"(2) "5"(1), of d] show ?thesis by simp
    next
      case (Suc j')
      from "5"(1) mono
      have "length ls \<le> pointer_of (snd (get_steps_to_execute_next self d))" by simp
      with Suc "5"(3) Cons.IH(5) [OF _ lay, of j'] show ?thesis by simp
    qed
  next
    case 6
    note lay = get_steps_after(1) [OF "6"(2), of d]
    note mono = get_steps_after(2) [OF "6"(2), of d]
    show ?case
    proof (cases j)
      case 0
      with "6"(1) have "fst (get_steps_to_execute_next self d) = Inr (Some xs)" by simp
      from get_steps_Some [OF "6"(2) this] 0 show ?thesis by simp
    next
      case (Suc j')
      with "6"(1)
      have "fst (calls (snd (get_steps_to_execute_next self d)) ds ! j') = Inr (Some xs)" by simp
      from Cons.IH(6) [OF this lay, of ] Suc "6"(3) mono show ?thesis by simp
    qed
  }
qed

lemma calls_drop:
  "i < length ds \<Longrightarrow>
   drop (Suc i) (calls self ds) = calls (snd (calls self ds ! i)) (drop (Suc i) ds)"
proof (induction ds arbitrary: self i)
  case Nil
  then show ?case by simp
next
  case (Cons d ds)
  show ?case
  proof (cases i)
    case 0
    then show ?thesis by simp
  next
    case (Suc i')
    with Cons.prems Cons.IH [of i' "snd (get_steps_to_execute_next self d)"]
    show ?thesis by simp
  qed
qed

lemma calls_later:
  assumes "i < j" and "j < length ds"
  shows "calls self ds ! j = calls (snd (calls self ds ! i)) (drop (Suc i) ds) ! (j - Suc i)"
proof -
  from assms have i: "i < length ds" by simp
  from assms have "calls self ds ! j = drop (Suc i) (calls self ds) ! (j - Suc i)"
    by (simp add: length_calls)
  with calls_drop [OF i, of self] show ?thesis by simp
qed

lemma disjoint_layers:
  "distinct (concat ls) \<Longrightarrow> k < l \<Longrightarrow> l < length ls \<Longrightarrow> set (ls ! k) \<inter> set (ls ! l) = {}"
proof (induction ls arbitrary: k l)
  case Nil
  then show ?case by simp
next
  case (Cons a ls)
  from Cons.prems(2) obtain l' where l: "l = Suc l'" by (cases l) auto
  with Cons.prems(3) have l': "l' < length ls" by simp
  show ?case
  proof (cases k)
    case 0
    from l' have "ls ! l' \<in> set ls" by simp
    then have "set (ls ! l') \<subseteq> set (concat ls)" by auto
    with Cons.prems(1) 0 l show ?thesis by auto
  next
    case (Suc k')
    with Cons.prems l Cons.IH [of k' l'] l' show ?thesis by simp
  qed
qed

text \<open>
  C5. In a run of calls on a coordinator whose layering exists, for any two calls, the
  earlier at position \<open>i\<close> and the later at position \<open>j\<close>: the pointer after the later call
  is not before the pointer after the earlier one; when both return steps, they are the
  steps not discarded of two layers, the later call's layer strictly after the earlier
  call's, and, the layers having no step in common, no step is returned by both; when the
  earlier call returns \<open>None\<close> so does the later one; and when the run starts with the
  pointer at the end of the layers, both return \<open>None\<close>, whatever the discard sets.
\<close>

theorem layers_never_revisited:
  assumes "layering_of self = Some layers" and "i < j" and "j < length ds"
  shows "pointer_of (snd (calls self ds ! i)) \<le> pointer_of (snd (calls self ds ! j))
     \<and> (fst (calls self ds ! i) = Inr (Some xs) \<and> fst (calls self ds ! j) = Inr (Some ys) \<longrightarrow>
          pointer_of (snd (calls self ds ! i)) - 1 < pointer_of (snd (calls self ds ! j)) - 1
        \<and> pointer_of (snd (calls self ds ! j)) - 1 < length layers
        \<and> xs = filter (\<lambda>e. e \<notin> self_discarded_steps (snd (calls self ds ! i)))
                 (layers ! (pointer_of (snd (calls self ds ! i)) - 1))
        \<and> ys = filter (\<lambda>e. e \<notin> self_discarded_steps (snd (calls self ds ! j)))
                 (layers ! (pointer_of (snd (calls self ds ! j)) - 1))
        \<and> (distinct (concat layers) \<longrightarrow> set xs \<inter> set ys = {}))
     \<and> (fst (calls self ds ! i) = Inr None \<longrightarrow> fst (calls self ds ! j) = Inr None)
     \<and> (length layers \<le> pointer_of self \<longrightarrow>
          fst (calls self ds ! i) = Inr None \<and> fst (calls self ds ! j) = Inr None)"
proof -
  let ?si = "snd (calls self ds ! i)"
  let ?rest = "drop (Suc i) ds"
  from assms have i: "i < length ds" by simp
  from assms have rest: "j - Suc i < length ?rest" by simp
  have later: "calls self ds ! j = calls ?si ?rest ! (j - Suc i)"
    by (rule calls_later [OF assms(2,3)])
  have lay_i: "layering_of ?si = Some layers"
    by (rule calls_entry(1) [OF assms(1) i])
  have mono: "pointer_of ?si \<le> pointer_of (snd (calls self ds ! j))"
    unfolding later by (rule calls_entry(2) [OF lay_i rest])
  have both: "pointer_of ?si - 1 < pointer_of (snd (calls self ds ! j)) - 1
        \<and> pointer_of (snd (calls self ds ! j)) - 1 < length layers
        \<and> xs = filter (\<lambda>e. e \<notin> self_discarded_steps ?si) (layers ! (pointer_of ?si - 1))
        \<and> ys = filter (\<lambda>e. e \<notin> self_discarded_steps (snd (calls self ds ! j)))
                 (layers ! (pointer_of (snd (calls self ds ! j)) - 1))
        \<and> (distinct (concat layers) \<longrightarrow> set xs \<inter> set ys = {})"
    if xs: "fst (calls self ds ! i) = Inr (Some xs)"
      and ys: "fst (calls self ds ! j) = Inr (Some ys)"
  proof -
    note first = calls_entry(6) [OF assms(1) i xs]
    from ys have "fst (calls ?si ?rest ! (j - Suc i)) = Inr (Some ys)"
      unfolding later .
    note second = calls_entry(6) [OF lay_i rest this, folded later]
    from first have pos: "0 < pointer_of ?si" by simp
    from second have lt: "pointer_of ?si < pointer_of (snd (calls self ds ! j))"
      and le: "pointer_of (snd (calls self ds ! j)) \<le> length layers"
      and ys_eq: "ys = filter (\<lambda>e. e \<notin> self_discarded_steps (snd (calls self ds ! j)))
                 (layers ! (pointer_of (snd (calls self ds ! j)) - 1))"
      by blast+
    from first have xs_eq:
      "xs = filter (\<lambda>e. e \<notin> self_discarded_steps ?si) (layers ! (pointer_of ?si - 1))"
      by blast
    from pos lt le have order: "pointer_of ?si - 1 < pointer_of (snd (calls self ds ! j)) - 1"
      "pointer_of (snd (calls self ds ! j)) - 1 < length layers"
      by simp_all
    have "set xs \<inter> set ys = {}" if "distinct (concat layers)"
    proof -
      from disjoint_layers [OF that order]
      have "set (layers ! (pointer_of ?si - 1))
            \<inter> set (layers ! (pointer_of (snd (calls self ds ! j)) - 1)) = {}" .
      moreover have "set xs \<subseteq> set (layers ! (pointer_of ?si - 1))"
        by (subst xs_eq) auto
      moreover have "set ys \<subseteq> set (layers ! (pointer_of (snd (calls self ds ! j)) - 1))"
        by (subst ys_eq) auto
      ultimately show ?thesis by blast
    qed
    with order xs_eq ys_eq show ?thesis by blast
  qed
  have none: "fst (calls self ds ! j) = Inr None" if "fst (calls self ds ! i) = Inr None"
  proof -
    have "length layers \<le> pointer_of ?si"
    proof (cases i)
      case 0
      with i obtain d ds' where ds: "ds = d # ds'" by (cases ds) auto
      with 0 that have "fst (get_steps_to_execute_next self d) = Inr None" by simp
      from get_steps_None [OF assms(1) this] 0 ds show ?thesis by simp
    next
      case (Suc i')
      with i have i': "i' < length ds" by simp
      have prev: "layering_of (snd (calls self ds ! i')) = Some layers"
        by (rule calls_entry(1) [OF assms(1) i'])
      from Suc i have "i' < i" "i < length ds" by simp_all
      note here = calls_later [OF this, of self]
      have idx: "i - Suc i' = 0" using Suc by simp
      from i Suc obtain d ds' where dr: "drop (Suc i') ds = d # ds'"
        by (cases "drop (Suc i') ds") auto
      from that have "fst (get_steps_to_execute_next (snd (calls self ds ! i')) d) = Inr None"
        unfolding here idx dr by simp
      from get_steps_None [OF prev this] show ?thesis
        unfolding here idx dr by simp
    qed
    from calls_entry(5) [OF lay_i rest this] show ?thesis
      unfolding later .
  qed
  have exhausted: "fst (calls self ds ! i) = Inr None \<and> fst (calls self ds ! j) = Inr None"
    if "length layers \<le> pointer_of self"
    using calls_entry(5) [OF assms(1) i that] calls_entry(5) [OF assms(1) assms(3) that]
    by simp
  from mono both none exhausted show ?thesis by blast
qed

theorem layers_never_revisited_witness:
  "layering_of (coordinator_init scenario_graph) = Some [[''A'', ''B''], [''C'']]
   \<and> fst (calls (coordinator_init scenario_graph) [{}, {}, {}, {''A''}] ! 0)
       = Inr (Some [''A'', ''B''])
   \<and> fst (calls (coordinator_init scenario_graph) [{}, {}, {}, {''A''}] ! 1)
       = Inr (Some [''C''])
   \<and> pointer_of (snd (calls (coordinator_init scenario_graph) [{}, {}, {}, {''A''}] ! 0)) - 1
       < pointer_of (snd (calls (coordinator_init scenario_graph) [{}, {}, {}, {''A''}] ! 1)) - 1
   \<and> set [''A'', ''B''] \<inter> set [''C''] = {}
   \<and> fst (calls (coordinator_init scenario_graph) [{}, {}, {}, {''A''}] ! 2) = Inr None
   \<and> fst (calls (coordinator_init scenario_graph) [{}, {}, {}, {''A''}] ! 3) = Inr None"
proof -
  let ?c = "coordinator_init scenario_graph"
  let ?ds = "[{}, {}, {}, {''A''}] :: string set list"
  note lay = layering_of_scenario
  have e0: "fst (calls ?c ?ds ! 0) = Inr (Some [''A'', ''B''])"
    unfolding scenario_graph_def by code_simp
  have e1: "fst (calls ?c ?ds ! 1) = Inr (Some [''C''])"
    unfolding scenario_graph_def by code_simp
  have e2: "fst (calls ?c ?ds ! 2) = Inr None"
    unfolding scenario_graph_def by code_simp
  have d: "distinct (concat [[''A'', ''B''], [''C'']])" by simp
  have i01: "(0::nat) < 1" "1 < length ?ds" and i23: "(2::nat) < 3" "3 < length ?ds"
    by simp_all
  from layers_never_revisited [OF lay i01, of "[''A'', ''B'']" "[''C'']"] e0 e1 d
  have first: "pointer_of (snd (calls ?c ?ds ! 0)) - 1 < pointer_of (snd (calls ?c ?ds ! 1)) - 1"
    "set [''A'', ''B''] \<inter> set [''C''] = {}"
    by blast+
  from layers_never_revisited [OF lay i23] e2
  have second: "fst (calls ?c ?ds ! 3) = Inr None"
    by blast
  from lay e0 e1 e2 first second show ?thesis by blast
qed

subsection \<open>Discarded steps\<close>

lemma calls_no_layering:
  "layering_of self = None \<Longrightarrow> j < length ds \<Longrightarrow> calls self ds ! j = (Inl LayeringError, self)"
proof (induction ds arbitrary: j)
  case Nil
  then show ?case by simp
next
  case (Cons d ds)
  then show ?case
    by (cases j) (simp_all add: get_steps_no_layering)
qed

lemma calls_discard_merged:
  "layering_of self = Some ls \<Longrightarrow> i < length ds \<Longrightarrow>
   ds ! i \<subseteq> self_discarded_steps (snd (calls self ds ! i))"
proof (induction ds arbitrary: self i)
  case Nil
  then show ?case by simp
next
  case (Cons d ds)
  show ?case
  proof (cases i)
    case 0
    with get_steps_after(3) [OF Cons.prems(1), of d] show ?thesis by simp
  next
    case (Suc i')
    with Cons.prems(2) Cons.IH [OF get_steps_after(1) [OF Cons.prems(1), of d], of i']
    show ?thesis by simp
  qed
qed

text \<open>
  C6. In a run of calls on any coordinator, a name given in the discard set of a call is,
  from that call on, never among the steps a call returns: for the call at position \<open>i\<close>
  and any call at position \<open>j\<close>, \<open>i\<close> itself or later, that returns steps, the name is in
  the coordinator's discard set after call \<open>j\<close> and not in the list returned.
\<close>

theorem discarded_never_returned:
  assumes "i \<le> j" and "j < length ds" and "x \<in> ds ! i"
      and "fst (calls self ds ! j) = Inr (Some xs)"
  shows "x \<notin> set xs \<and> x \<in> self_discarded_steps (snd (calls self ds ! j))"
proof (cases "layering_of self")
  case None
  from calls_no_layering [OF None assms(2)] assms(4) show ?thesis by simp
next
  case (Some ls)
  from assms have i: "i < length ds" by simp
  have at_i: "x \<in> self_discarded_steps (snd (calls self ds ! i))"
    using calls_discard_merged [OF Some i] assms(3) by blast
  have at_j: "x \<in> self_discarded_steps (snd (calls self ds ! j))"
  proof (cases "i = j")
    case True
    with at_i show ?thesis by simp
  next
    case False
    with assms(1) have lt: "i < j" by simp
    have lay_i: "layering_of (snd (calls self ds ! i)) = Some ls"
      by (rule calls_entry(1) [OF Some i])
    from lt assms(2) have rest: "j - Suc i < length (drop (Suc i) ds)" by simp
    from calls_entry(3) [OF lay_i rest] at_i show ?thesis
      unfolding calls_later [OF lt assms(2)] by blast
  qed
  from calls_entry(6) [OF Some assms(2) assms(4)]
  have "xs = filter (\<lambda>e. e \<notin> self_discarded_steps (snd (calls self ds ! j)))
                 (ls ! (pointer_of (snd (calls self ds ! j)) - 1))"
    by blast
  then have "set xs \<inter> self_discarded_steps (snd (calls self ds ! j)) = {}"
    by auto
  with at_j show ?thesis by blast
qed

theorem discarded_never_returned_witness:
  "(0::nat) \<le> 1
   \<and> ''B'' \<in> [{''B''}, {}, {}] ! 0
   \<and> fst (calls (coordinator_init scenario_graph) [{''B''}, {}, {}] ! 0) = Inr (Some [''A''])
   \<and> fst (calls (coordinator_init scenario_graph) [{''B''}, {}, {}] ! 1) = Inr (Some [''C''])
   \<and> ''B'' \<notin> set [''A'']
   \<and> ''B'' \<notin> set [''C'']
   \<and> ''B'' \<in> self_discarded_steps
                (snd (calls (coordinator_init scenario_graph) [{''B''}, {}, {}] ! 1))"
proof -
  let ?c = "coordinator_init scenario_graph"
  let ?ds = "[{''B''}, {}, {}] :: string set list"
  have e0: "fst (calls ?c ?ds ! 0) = Inr (Some [''A''])"
    unfolding scenario_graph_def by code_simp
  have e1: "fst (calls ?c ?ds ! 1) = Inr (Some [''C''])"
    unfolding scenario_graph_def by code_simp
  have mem: "''B'' \<in> ?ds ! 0" by simp
  have i00: "(0::nat) \<le> 0" "0 < length ?ds" and i01: "(0::nat) \<le> 1" "1 < length ?ds"
    by simp_all
  from discarded_never_returned [OF i00 mem e0]
       discarded_never_returned [OF i01 mem e1] e0 e1 mem
  show ?thesis by simp
qed

subsection \<open>Names that are in no layer\<close>

text \<open>Two coordinators that no call can tell apart: same layers, same pointer, and the
  same steps of the layers discarded.\<close>

definition alike ::
  "string list list \<Rightarrow> ParallelStepExecutionCoordinator \<Rightarrow> ParallelStepExecutionCoordinator \<Rightarrow> bool" where
  "alike ls s t \<longleftrightarrow>
     layering_of s = Some ls \<and> layering_of t = Some ls \<and> pointer_of s = pointer_of t
     \<and> (\<forall>l \<in> set ls. \<forall>e \<in> set l. e \<in> self_discarded_steps s \<longleftrightarrow> e \<in> self_discarded_steps t)"

lemma alike_step:
  assumes "alike ls s t" and "e \<inter> \<Union> (set ` set ls) = {}"
  shows "fst (get_steps_to_execute_next s (d \<union> e)) = fst (get_steps_to_execute_next t d)"
    and "alike ls (snd (get_steps_to_execute_next s (d \<union> e))) (snd (get_steps_to_execute_next t d))"
proof -
  from assms(1) have ls: "layering_of s = Some ls" and lt: "layering_of t = Some ls"
    and p: "pointer_of s = pointer_of t"
    and same: "\<forall>l \<in> set ls. \<forall>x \<in> set l. x \<in> self_discarded_steps s \<longleftrightarrow> x \<in> self_discarded_steps t"
    by (simp_all add: alike_def)
  have same': "\<forall>l \<in> set ls. \<forall>x \<in> set l.
      x \<in> self_discarded_steps s \<union> (d \<union> e) \<longleftrightarrow> x \<in> self_discarded_steps t \<union> d"
    using same assms(2) by auto
  have adv: "advance_pointer ls (self_discarded_steps s \<union> (d \<union> e)) (pointer_of s)
           = advance_pointer ls (self_discarded_steps t \<union> d) (pointer_of t)"
    unfolding p by (rule advance_pointer_cong [OF same'])
  show "fst (get_steps_to_execute_next s (d \<union> e)) = fst (get_steps_to_execute_next t d)"
    unfolding get_steps_unfold [OF ls] get_steps_unfold [OF lt] adv by simp
  show "alike ls (snd (get_steps_to_execute_next s (d \<union> e))) (snd (get_steps_to_execute_next t d))"
    unfolding get_steps_unfold [OF ls] get_steps_unfold [OF lt] adv
    using same' by (simp add: alike_def layering_of_def pointer_of_def)
qed

lemma alike_calls:
  "alike ls s t \<Longrightarrow> length es = length ds \<Longrightarrow> \<forall>e \<in> set es. e \<inter> \<Union> (set ` set ls) = {} \<Longrightarrow>
   map fst (calls s (map2 (\<union>) ds es)) = map fst (calls t ds)"
proof (induction ds arbitrary: es s t)
  case Nil
  then show ?case by simp
next
  case (Cons d ds)
  from Cons.prems(2) obtain e es' where es: "es = e # es'" by (cases es) auto
  with Cons.prems have e: "e \<inter> \<Union> (set ` set ls) = {}"
    and rest: "length es' = length ds" "\<forall>e \<in> set es'. e \<inter> \<Union> (set ` set ls) = {}"
    by simp_all
  note step = alike_step [OF Cons.prems(1) e, of d]
  from Cons.IH [OF step(2) rest] step(1) es show ?case by simp
qed

lemma alike_refl: "layering_of self = Some ls \<Longrightarrow> alike ls self self"
  by (simp add: alike_def)

text \<open>
  C7. In a run of calls on a coordinator whose layering exists, joining to the discard set
  of each call any names that are in no layer changes nothing of what the calls return:
  call by call the run with the added names returns what the run without them returns, and
  every call of it returns (none raises).
\<close>

theorem unknown_discards_inert:
  assumes "layering_of self = Some layers"
      and "length es = length ds"
      and "\<forall>e \<in> set es. e \<inter> \<Union> (set ` set layers) = {}"
  shows "map fst (calls self (map2 (\<union>) ds es)) = map fst (calls self ds)
       \<and> (\<forall>j < length ds. \<exists>r. fst (calls self (map2 (\<union>) ds es) ! j) = Inr r)"
proof -
  have "map fst (calls self (map2 (\<union>) ds es)) = map fst (calls self ds)"
    by (rule alike_calls [OF alike_refl [OF assms(1)] assms(2,3)])
  moreover have "\<exists>r. fst (calls self (map2 (\<union>) ds es) ! j) = Inr r" if "j < length ds" for j
  proof -
    from that assms(2) have "j < length (map2 (\<union>) ds es)" by simp
    from calls_entry(4) [OF assms(1) this] show ?thesis .
  qed
  ultimately show ?thesis by blast
qed

theorem unknown_discards_inert_witness:
  "layering_of (coordinator_init scenario_graph) = Some [[''A'', ''B''], [''C'']]
   \<and> {''ghost''} \<inter> \<Union> (set ` set [[''A'', ''B''], [''C'']]) = {}
   \<and> map fst (calls (coordinator_init scenario_graph)
                (map2 (\<union>) [{''A''}, {}, {}] [{''ghost''}, {''x'', ''y''}, {}]))
       = map fst (calls (coordinator_init scenario_graph) [{''A''}, {}, {}])
   \<and> map fst (calls (coordinator_init scenario_graph) [{''A''}, {}, {}])
       = [Inr (Some [''B'']), Inr (Some [''C'']), Inr None]"
proof -
  let ?c = "coordinator_init scenario_graph"
  note lay = layering_of_scenario
  have len: "length [{''ghost''}, {''x'', ''y''}, {} :: string set]
              = length [{''A''}, {}, {} :: string set]"
    by simp
  have absent: "\<forall>e \<in> set [{''ghost''}, {''x'', ''y''}, {}].
                  e \<inter> \<Union> (set ` set [[''A'', ''B''], [''C'']]) = {}"
    by simp
  have run: "map fst (calls ?c [{''A''}, {}, {}]) = [Inr (Some [''B'']), Inr (Some [''C'']), Inr None]"
    unfolding scenario_graph_def by code_simp
  from unknown_discards_inert [OF lay len absent] lay run
  show ?thesis by simp
qed

end
